theory Spec2Isabelle
  imports Main "HOL-Library.Sublist"
begin

section \<open>The result model of \<^verbatim>\<open>src/index.ts\<close>\<close>

text \<open>
  \<^verbatim>\<open>type FailureObject = {message:string, causes?:FailureObject[]}\<close>.
  An optional field that is absent (\<^verbatim>\<open>undefined\<close>) is \<open>None\<close>.
\<close>

datatype FailureObject =
  FailureObject (message: string) (causes: "FailureObject list option")

text \<open>
  \<^verbatim>\<open>ParseResultInner<T> = ParseResultFailure | ParseResultSuccessInner<T>\<close>, with the
  fields of the success in the order of the source: \<^verbatim>\<open>suppressedFailures?\<close>,
  \<^verbatim>\<open>content\<close>, \<^verbatim>\<open>unconsumed\<close>. A \<^verbatim>\<open>ParseResultFailure\<close> is a
  \<^verbatim>\<open>FailureObject\<close> tagged \<^verbatim>\<open>"failure"\<close>.
\<close>

datatype 'a ParseResultInner =
  Success (suppressedFailures: "FailureObject list option") (content: 'a) (unconsumed: string)
| Failure FailureObject

text \<open>\<^verbatim>\<open>ParseResult<T> = ParseResultFailure | ParseResultSuccess<T>\<close>, what \<^verbatim>\<open>parse\<close> returns.\<close>

datatype 'a ParseResult =
  Match 'a
| NoMatch FailureObject

text \<open>
  A call in JavaScript need not return a value. It can throw: \<open>TypeError\<close> is the exception
  of a property read on \<^verbatim>\<open>undefined\<close>. It can return an object that does not have its
  declared type: \<open>IllTyped\<close> stands for a success whose \<^verbatim>\<open>unconsumed\<close> is
  \<^verbatim>\<open>undefined\<close>. It can recurse without end: that is \<open>None\<close>, a returned value is
  \<open>Some\<close>.
\<close>

datatype error = TypeError | IllTyped

type_synonym 'a run = "(error + 'a) option"

text \<open>
  A parser is the object \<^verbatim>\<open>createParser\<close> builds around a \<^verbatim>\<open>consume\<close> function; its
  methods \<^verbatim>\<open>then\<close>, \<^verbatim>\<open>onParsed\<close>, \<^verbatim>\<open>parse\<close>, \<^verbatim>\<open>validate\<close> and \<^verbatim>\<open>not\<close> are the
  functions below, which take the parser (\<^verbatim>\<open>arg\<close>) first.
\<close>

datatype 'a Parser =
  createParser (consume: "string \<Rightarrow> 'a ParseResultInner run")

section \<open>The methods of a parser\<close>

text \<open>
  Each method builds a new parser whose \<^verbatim>\<open>consume\<close> calls that of \<^verbatim>\<open>arg\<close>; a call that
  throws or does not return makes the caller do the same. The functions a caller passes in
  (\<^verbatim>\<open>action\<close>, \<^verbatim>\<open>predicate\<close>, \<^verbatim>\<open>cb\<close>, \<^verbatim>\<open>factory\<close>) are functions of HOL: they
  return. Strings are lists of characters; nothing below depends on the alphabet.
\<close>

definition then_parser :: "'a Parser \<Rightarrow> ('a \<Rightarrow> 'b) \<Rightarrow> 'b Parser" where
  "then_parser arg action = createParser (\<lambda>str.
     case consume arg str of
       None \<Rightarrow> None
     | Some (Inl e) \<Rightarrow> Some (Inl e)
     | Some (Inr res) \<Rightarrow>
         (case res of
            Success sf c u \<Rightarrow> Some (Inr (Success None (action c) u))
          | Failure f \<Rightarrow> Some (Inr (Failure f))))"

text \<open>The callback returns nothing; what it does with its arguments is outside the engine.\<close>

definition onParsed :: "'a Parser \<Rightarrow> (string \<Rightarrow> 'a ParseResultInner \<Rightarrow> unit) \<Rightarrow> 'a Parser" where
  "onParsed arg cb = createParser (\<lambda>str.
     case consume arg str of
       None \<Rightarrow> None
     | Some (Inl e) \<Rightarrow> Some (Inl e)
     | Some (Inr res) \<Rightarrow> (case cb str res of () \<Rightarrow> Some (Inr res)))"

definition quote :: char where
  "quote = CHR 0x27"

definition parse :: "'a Parser \<Rightarrow> string \<Rightarrow> 'a ParseResult run" where
  "parse arg str =
     (case consume arg str of
        None \<Rightarrow> None
      | Some (Inl e) \<Rightarrow> Some (Inl e)
      | Some (Inr res) \<Rightarrow>
          (case res of
             Failure f \<Rightarrow> Some (Inr (NoMatch f))
           | Success sf c u \<Rightarrow>
               if u = [] then Some (Inr (Match c))
               else Some (Inr (NoMatch (FailureObject
                 (''Expect EOF. But '' @ [quote] @ u @ [quote] @ '' was found'') sf)))))"

definition validate :: "'a Parser \<Rightarrow> ('a \<Rightarrow> bool) \<Rightarrow> 'a Parser" where
  "validate arg predicate = createParser (\<lambda>str.
     case consume arg str of
       None \<Rightarrow> None
     | Some (Inl e) \<Rightarrow> Some (Inl e)
     | Some (Inr res) \<Rightarrow>
         (case res of
            Success sf c u \<Rightarrow>
              if predicate c then Some (Inr res)
              else Some (Inr (Failure (FailureObject ''Validation Error'' None)))
          | Failure f \<Rightarrow> Some (Inr res)))"

definition not_parser :: "'a Parser \<Rightarrow> 'b Parser \<Rightarrow> 'a Parser" where
  "not_parser arg parser = createParser (\<lambda>str.
     case consume parser str of
       None \<Rightarrow> None
     | Some (Inl e) \<Rightarrow> Some (Inl e)
     | Some (Inr checked) \<Rightarrow>
         (case checked of
            Success sf c u \<Rightarrow> Some (Inr (Failure (FailureObject ''TODO:'' None)))
          | Failure f \<Rightarrow> consume arg str))"

section \<open>lazy, sequence, choice, repeat\<close>

definition lazy :: "(unit \<Rightarrow> 'a Parser) \<Rightarrow> 'a Parser" where
  "lazy factory = createParser (\<lambda>str. consume (factory ()) str)"

text \<open>
  The inner \<^verbatim>\<open>fn\<close> of \<^verbatim>\<open>_matchSeq\<close>. \<^verbatim>\<open>parsers[num]\<close> beyond the end of the array is
  \<^verbatim>\<open>undefined\<close>, and \<^verbatim>\<open>parser.consume\<close> then throws; \<^verbatim>\<open>parsers[num + 1]\<close> is truthy
  exactly when the index is inside the array.
\<close>

function matchSeq_fn :: "'a Parser list \<Rightarrow> string \<Rightarrow> nat \<Rightarrow> 'a list \<Rightarrow> 'a list ParseResultInner run" where
  "matchSeq_fn parsers cur num prev =
     (if length parsers \<le> num then Some (Inl TypeError)
      else
        case consume (parsers ! num) cur of
          None \<Rightarrow> None
        | Some (Inl e) \<Rightarrow> Some (Inl e)
        | Some (Inr res) \<Rightarrow>
            (case res of
               Success sf c u \<Rightarrow>
                 (let content = prev @ [c]
                  in if num + 1 < length parsers
                     then matchSeq_fn parsers u (num + 1) content
                     else Some (Inr (Success None content u)))
             | Failure f \<Rightarrow> Some (Inr (Failure f))))"
  by pat_completeness auto
termination
  by (relation "measure (\<lambda>(parsers, cur, num, prev). length parsers - num)") auto

definition matchSeq :: "string \<Rightarrow> 'a Parser list \<Rightarrow> 'a list ParseResultInner run" where
  "matchSeq str parsers = matchSeq_fn parsers str 0 []"

definition sequence :: "'a Parser list \<Rightarrow> 'a list Parser" where
  "sequence parsers = createParser (\<lambda>str. matchSeq str parsers)"

text \<open>The inner \<^verbatim>\<open>fn\<close> of \<^verbatim>\<open>choice\<close>; \<^verbatim>\<open>failures\<close> starts as \<^verbatim>\<open>undefined\<close>.\<close>

function choice_fn :: "'a Parser list \<Rightarrow> string \<Rightarrow> nat \<Rightarrow> FailureObject list option \<Rightarrow> 'a ParseResultInner run" where
  "choice_fn parsers str num failures =
     (if length parsers \<le> num then Some (Inr (Failure (FailureObject ''No Matches'' failures)))
      else
        case consume (parsers ! num) str of
          None \<Rightarrow> None
        | Some (Inl e) \<Rightarrow> Some (Inl e)
        | Some (Inr res) \<Rightarrow>
            (case res of
               Success sf c u \<Rightarrow> Some (Inr (Success failures c u))
             | Failure f \<Rightarrow>
                 (let failure = FailureObject (message f) (causes f)
                  in choice_fn parsers str (num + 1)
                       (case failures of
                          Some fs \<Rightarrow> Some (fs @ [failure])
                        | None \<Rightarrow> Some [failure]))))"
  by pat_completeness auto
termination
  by (relation "measure (\<lambda>(parsers, str, num, failures). length parsers - num)") auto

definition choice :: "'a Parser list \<Rightarrow> 'a Parser" where
  "choice parsers = createParser (\<lambda>str. choice_fn parsers str 0 None)"

text \<open>
  The inner \<^verbatim>\<open>fn\<close> of \<^verbatim>\<open>repeat\<close>. Nothing bounds its recursion, so it is a partial
  function: \<open>None\<close> is a call that never returns.
\<close>

partial_function (option) repeat_fn :: "'a Parser \<Rightarrow> string \<Rightarrow> 'a list \<Rightarrow> 'a list ParseResultInner run" where
  "repeat_fn parser cur acc =
     (case consume parser cur of
        None \<Rightarrow> None
      | Some (Inl e) \<Rightarrow> Some (Inl e)
      | Some (Inr res) \<Rightarrow>
          (case res of
             Success sf c u \<Rightarrow>
               (let content = acc @ [c]
                in if u \<noteq> [] then repeat_fn parser u content
                   else Some (Inr (Success None content u)))
           | Failure f \<Rightarrow> Some (Inr (Success None acc cur))))"

definition repeat :: "'a Parser \<Rightarrow> 'a list Parser" where
  "repeat parser = createParser (\<lambda>str. repeat_fn parser str [])"

text \<open>
  The behaviour of \<^verbatim>\<open>repeat\<close> in the words of the specification, for comparison with
  \<open>repeat_fn\<close>: \<open>repeat_spec p cur acc cur' acc'\<close> says that repeating \<open>p\<close> from the
  cursor \<open>cur\<close> with the contents \<open>acc\<close> accumulated so far stops with the cursor
  \<open>cur'\<close> and the contents \<open>acc'\<close>. It stops when \<open>p\<close> fails on the cursor, which
  leaves cursor and contents as they are, or when a success of \<open>p\<close> leaves the empty
  string; any other success is appended and the cursor advanced.
\<close>

inductive repeat_spec :: "'a Parser \<Rightarrow> string \<Rightarrow> 'a list \<Rightarrow> string \<Rightarrow> 'a list \<Rightarrow> bool"
  for p :: "'a Parser" where
  stop_on_failure:
    "consume p cur = Some (Inr (Failure f)) \<Longrightarrow> repeat_spec p cur acc cur acc"
| stop_on_empty:
    "consume p cur = Some (Inr (Success sf c [])) \<Longrightarrow> repeat_spec p cur acc [] (acc @ [c])"
| advance:
    "consume p cur = Some (Inr (Success sf c u)) \<Longrightarrow> u \<noteq> [] \<Longrightarrow>
     repeat_spec p u (acc @ [c]) cur' acc' \<Longrightarrow> repeat_spec p cur acc cur' acc'"

code_pred repeat_spec .

section \<open>Regular expressions\<close>

text \<open>
  The leaf matchers build a pattern and run \<^verbatim>\<open>RegExp.prototype.exec\<close> on it. A pattern is
  represented by its syntax tree, so that joining pattern sources
  (\<^verbatim>\<open>`^(${exp.source})([\\s\\S]*)$`\<close>) is building a tree around a tree. The fragment:
  the empty pattern, a character, \<^verbatim>\<open>[\s\S]\<close> (\<open>AnyChar\<close>), \<^verbatim>\<open>^\<close> (\<open>Bol\<close>),
  \<^verbatim>\<open>$\<close> (\<open>Eol\<close>), concatenation, \<^verbatim>\<open>a|b\<close>, the greedy \<^verbatim>\<open>a*\<close>, and the capturing
  group \<^verbatim>\<open>(a)\<close>. Groups have no numbers in the tree, as in the source text: a group's
  number is the count of opening parentheses up to its own.
\<close>

datatype regex =
  Empty
| Chr char
| AnyChar
| Bol
| Eol
| Seq regex regex
| Alt regex regex
| Star regex
| Group regex

primrec ngroups :: "regex \<Rightarrow> nat" where
  "ngroups Empty = 0"
| "ngroups (Chr c) = 0"
| "ngroups AnyChar = 0"
| "ngroups Bol = 0"
| "ngroups Eol = 0"
| "ngroups (Seq a b) = ngroups a + ngroups b"
| "ngroups (Alt a b) = ngroups a + ngroups b"
| "ngroups (Star a) = ngroups a"
| "ngroups (Group a) = Suc (ngroups a)"

text \<open>
  The state of a match, as in the language definition: the index reached in the input and
  the captures so far (\<open>None\<close> is \<^verbatim>\<open>undefined\<close>).
\<close>

record mstate =
  endIndex :: nat
  captures :: "nat \<Rightarrow> string option"

definition substring :: "string \<Rightarrow> nat \<Rightarrow> nat \<Rightarrow> string" where
  "substring input i j = take (j - i) (drop i input)"

definition clear :: "nat \<Rightarrow> nat \<Rightarrow> (nat \<Rightarrow> string option) \<Rightarrow> (nat \<Rightarrow> string option)" where
  "clear k n cap = (\<lambda>i. if k \<le> i \<and> i < k + n then None else cap i)"

text \<open>
  A backtracking matcher tries its alternatives in a fixed order and keeps the first that
  lets the rest of the pattern match. \<open>rmatch a input k x\<close> lists, in that order, every
  state in which \<open>a\<close> can end when started in \<open>x\<close>; \<open>k\<close> is the number of the first
  group inside \<open>a\<close>. The first state of the list for a whole pattern is the match that
  backtracking finds.

  \<open>RepeatMatcher\<close> is the greedy star: an iteration that consumes nothing is rejected, the
  captures of the groups inside are reset before each iteration (by the caller's \<open>m\<close>), and
  stopping here comes last. Every accepted iteration moves \<open>endIndex\<close> forward, so the
  number of characters left bounds the iterations.
\<close>

primrec RepeatMatcher :: "(mstate \<Rightarrow> mstate list) \<Rightarrow> nat \<Rightarrow> mstate \<Rightarrow> mstate list" where
  "RepeatMatcher m 0 x = [x]"
| "RepeatMatcher m (Suc n) x =
     concat (map (RepeatMatcher m n) (filter (\<lambda>y. endIndex y \<noteq> endIndex x) (m x))) @ [x]"

primrec rmatch :: "regex \<Rightarrow> string \<Rightarrow> nat \<Rightarrow> mstate \<Rightarrow> mstate list" where
  "rmatch Empty input k x = [x]"
| "rmatch (Chr c) input k x =
     (if endIndex x < length input \<and> input ! endIndex x = c
      then [x\<lparr>endIndex := Suc (endIndex x)\<rparr>] else [])"
| "rmatch AnyChar input k x =
     (if endIndex x < length input then [x\<lparr>endIndex := Suc (endIndex x)\<rparr>] else [])"
| "rmatch Bol input k x = (if endIndex x = 0 then [x] else [])"
| "rmatch Eol input k x = (if endIndex x = length input then [x] else [])"
| "rmatch (Seq a b) input k x =
     concat (map (rmatch b input (k + ngroups a)) (rmatch a input k x))"
| "rmatch (Alt a b) input k x = rmatch a input k x @ rmatch b input (k + ngroups a) x"
| "rmatch (Star a) input k x =
     RepeatMatcher
       (\<lambda>y. rmatch a input k (y\<lparr>captures := clear k (ngroups a) (captures y)\<rparr>))
       (length input - endIndex x) x"
| "rmatch (Group a) input k x =
     map (\<lambda>y. y\<lparr>captures := (captures y)(k \<mapsto> substring input (endIndex x) (endIndex y))\<rparr>)
       (rmatch a input (Suc k) x)"

text \<open>
  \<^verbatim>\<open>exec\<close> of a pattern without flags: the match is tried at each start index from 0 on;
  the result is \<^verbatim>\<open>null\<close> (\<open>None\<close>) or the array of the matched text followed by the
  captures of the groups 1 to \<open>ngroups r\<close>.
\<close>

fun exec_from :: "regex \<Rightarrow> string \<Rightarrow> nat list \<Rightarrow> string option list option" where
  "exec_from r input [] = None"
| "exec_from r input (i # is) =
     (case rmatch r input 1 \<lparr>endIndex = i, captures = \<lambda>_. None\<rparr> of
        [] \<Rightarrow> exec_from r input is
      | y # _ \<Rightarrow>
          Some (Some (substring input i (endIndex y)) # map (captures y) [1..<Suc (ngroups r)]))"

definition exec :: "regex \<Rightarrow> string \<Rightarrow> string option list option" where
  "exec r input = exec_from r input [0..<Suc (length input)]"

section \<open>The leaf matchers\<close>

text \<open>
  A \<^verbatim>\<open>RegExp\<close> object: its source text, its flags, and the pattern the source text
  denotes. \<^verbatim>\<open>`${exp}`\<close> is \<^verbatim>\<open>/source/flags\<close>.
\<close>

record RegExp =
  source :: string
  flags :: string
  pattern :: regex

definition toString :: "RegExp \<Rightarrow> string" where
  "toString exp = ''/'' @ source exp @ ''/'' @ flags exp"

text \<open>
  \<^verbatim>\<open>const [,content,unconsumed] = result\<close> reads the elements 1 and 2 of the array, whatever
  groups they belong to. The array of the matcher has at least three elements. An element
  is \<^verbatim>\<open>undefined\<close> when its group took no part in the match; the object returned then
  has no string where its type wants one, which is \<open>IllTyped\<close>.
\<close>

definition regexp :: "RegExp \<Rightarrow> string Parser" where
  "regexp exp =
     (let matcher = Seq Bol (Seq (Group (pattern exp)) (Seq (Group (Star AnyChar)) Eol))
      in createParser (\<lambda>str.
           case exec matcher str of
             None \<Rightarrow> Some (Inr (Failure (FailureObject
               (''Regexp '' @ [quote] @ toString exp @ [quote] @ '' not matched: ''
                  @ [quote] @ str @ [quote]) None)))
           | Some result \<Rightarrow>
               (case (result ! 1, result ! 2) of
                  (Some c, Some u) \<Rightarrow> Some (Inr (Success None c u))
                | _ \<Rightarrow> Some (Inl IllTyped))))"

text \<open>
  \<^verbatim>\<open>escapeRegExp\<close> puts a backslash before every character that means something in a
  pattern, so the escaped text denotes the pattern in which each character of the literal
  matches itself.
\<close>

definition escapeRegExp :: "string \<Rightarrow> regex" where
  "escapeRegExp text = foldr (\<lambda>c r. Seq (Chr c) r) text Empty"

definition str :: "string \<Rightarrow> string Parser" where
  "str literal =
     (let escaped = escapeRegExp literal;
          matcher = Seq Bol (Seq escaped (Seq (Group (Star AnyChar)) Eol))
      in createParser (\<lambda>str.
           case exec matcher str of
             None \<Rightarrow> Some (Inr (Failure (FailureObject
               (''Literal '' @ [quote] @ literal @ [quote] @ '' not matched: ''
                  @ [quote] @ str @ [quote]) None)))
           | Some result \<Rightarrow>
               (case result ! 1 of
                  Some u \<Rightarrow> Some (Inr (Success None literal u))
                | None \<Rightarrow> Some (Inl IllTyped))))"

section \<open>The suffix invariant\<close>

text \<open>
  The invariant of the result model: what a success leaves unconsumed is a suffix of the
  input that was given to \<^verbatim>\<open>consume\<close>.
\<close>

definition suffix_invariant :: "'a Parser \<Rightarrow> bool" where
  "suffix_invariant p \<longleftrightarrow>
     (\<forall>s sf c u. consume p s = Some (Inr (Success sf c u)) \<longrightarrow> suffix u s)"

declare matchSeq_fn.simps [simp del]
declare choice_fn.simps [simp del]
declare repeat_fn.simps [code]

section \<open>Facts about the matcher and the leaf parsers\<close>

lemma clear_none [simp]: "clear k 0 cap = cap"
  by (rule ext) (auto simp: clear_def)

lemma mstate_same_endIndex [simp]: "x\<lparr>endIndex := endIndex x\<rparr> = x"
  by simp

lemma take_drop_Cons_iff:
  "take (Suc n) (drop e input) = c # l \<longleftrightarrow>
     e < length input \<and> input ! e = c \<and> take n (drop (Suc e) input) = l"
proof (cases "e < length input")
  case True
  then have "drop e input = input ! e # drop (Suc e) input"
    by (simp add: Cons_nth_drop_Suc)
  then show ?thesis using True by simp
next
  case False
  then show ?thesis by simp
qed

lemma rmatch_escapeRegExp:
  "rmatch (escapeRegExp l) input k x =
     (if take (length l) (drop (endIndex x) input) = l
      then [x\<lparr>endIndex := endIndex x + length l\<rparr>] else [])"
proof (induction l arbitrary: x)
  case Nil
  show ?case by (simp add: escapeRegExp_def)
next
  case (Cons c l)
  have step: "rmatch (escapeRegExp (c # l)) input k x =
      concat (map (rmatch (escapeRegExp l) input k) (rmatch (Chr c) input k x))"
    by (simp add: escapeRegExp_def)
  show ?case
    unfolding step
    by (simp add: Cons.IH take_drop_Cons_iff)
qed

lemma RepeatMatcher_AnyChar:
  "n + endIndex x = length input \<Longrightarrow>
   RepeatMatcher (\<lambda>y. rmatch AnyChar input k y) n x =
     map (\<lambda>j. x\<lparr>endIndex := j\<rparr>) (rev [endIndex x..<Suc (length input)])"
proof (induction n arbitrary: x)
  case 0
  then show ?case by simp
next
  case (Suc n)
  let ?x' = "x\<lparr>endIndex := Suc (endIndex x)\<rparr>"
  from Suc.prems have lt: "endIndex x < length input" by simp
  from Suc.prems have "n + endIndex ?x' = length input" by simp
  from Suc.IH [OF this]
  have ih: "RepeatMatcher (\<lambda>y. rmatch AnyChar input k y) n ?x' =
      map (\<lambda>j. x\<lparr>endIndex := j\<rparr>) (rev [Suc (endIndex x)..<Suc (length input)])"
    by simp
  have "[endIndex x..<Suc (length input)] = endIndex x # [Suc (endIndex x)..<Suc (length input)]"
    using lt by (simp add: upt_conv_Cons)
  then show ?case using lt ih by simp
qed

lemma rmatch_Star_AnyChar:
  assumes "endIndex x \<le> length input"
  shows "rmatch (Star AnyChar) input k x =
     map (\<lambda>j. x\<lparr>endIndex := j\<rparr>) (rev [endIndex x..<Suc (length input)])"
proof -
  have "(\<lambda>y. rmatch AnyChar input k (y\<lparr>captures := clear k (ngroups AnyChar) (captures y)\<rparr>)) =
        (\<lambda>y. rmatch AnyChar input k y)"
    by (rule ext) simp
  then show ?thesis
    using assms RepeatMatcher_AnyChar [of "length input - endIndex x" x input k]
    by simp
qed

lemma concat_map_none: "(\<And>j. j \<in> set js \<Longrightarrow> f j = []) \<Longrightarrow> concat (map f js) = []"
  by (induction js) auto

text \<open>The tail of both matchers, \<^verbatim>\<open>([\s\S]*)$\<close>: one result, the rest of the input captured.\<close>

lemma rmatch_rest:
  assumes "endIndex x \<le> length input"
  shows "rmatch (Seq (Group (Star AnyChar)) Eol) input k x =
     [x\<lparr>endIndex := length input,
        captures := (captures x)(k \<mapsto> drop (endIndex x) input)\<rparr>]"
proof -
  let ?g = "\<lambda>j. x\<lparr>endIndex := j, captures := (captures x)(k \<mapsto> substring input (endIndex x) j)\<rparr>"
  let ?f = "\<lambda>j. rmatch Eol input (k + ngroups (Group (Star AnyChar))) (?g j)"
  have up: "rev [endIndex x..<Suc (length input)] = length input # rev [endIndex x..<length input]"
    using assms by simp
  have "rmatch (Seq (Group (Star AnyChar)) Eol) input k x =
      concat (map ?f (rev [endIndex x..<Suc (length input)]))"
    by (simp add: rmatch_Star_AnyChar [OF assms] comp_def del: upt_Suc rmatch.simps(8))
  also have "\<dots> = ?f (length input) @ concat (map ?f (rev [endIndex x..<length input]))"
    unfolding up by simp
  also have "concat (map ?f (rev [endIndex x..<length input])) = []"
    by (rule concat_map_none) auto
  finally have "rmatch (Seq (Group (Star AnyChar)) Eol) input k x = ?f (length input) @ []" .
  then show ?thesis
    by (simp add: substring_def)
qed

lemma ngroups_escapeRegExp [simp]: "ngroups (escapeRegExp l) = 0"
  by (induction l) (simp_all add: escapeRegExp_def)

lemma rmatch_Bol_Seq:
  "rmatch (Seq Bol r) input k x = (if endIndex x = 0 then rmatch r input k x else [])"
  by simp

lemma rmatch_literal_rest:
  "rmatch (Seq (escapeRegExp l) (Seq (Group (Star AnyChar)) Eol)) input k x =
     (if take (length l) (drop (endIndex x) input) = l
      then rmatch (Seq (Group (Star AnyChar)) Eol) input k (x\<lparr>endIndex := endIndex x + length l\<rparr>)
      else [])"
  by (simp add: rmatch_escapeRegExp del: rmatch.simps(8))

lemma exec_from_Bol:
  "0 \<notin> set starts \<Longrightarrow> exec_from (Seq Bol r) input starts = None"
  by (induction starts) auto

lemma exec_Bol:
  "exec (Seq Bol r) input =
     (case rmatch r input 1 \<lparr>endIndex = 0, captures = \<lambda>_. None\<rparr> of
        [] \<Rightarrow> None
      | y # _ \<Rightarrow> Some (Some (substring input 0 (endIndex y)) # map (captures y) [1..<Suc (ngroups r)]))"
proof -
  have "[0..<Suc (length input)] = 0 # [1..<Suc (length input)]"
    by (simp add: upt_conv_Cons del: upt_Suc)
  then show ?thesis
    by (simp add: exec_def exec_from_Bol split: list.splits del: upt_Suc)
qed

text \<open>
  What \<^verbatim>\<open>str\<close> computes: success exactly when the literal is a prefix of the input,
  with the rest of the input as \<^verbatim>\<open>unconsumed\<close>.
\<close>

lemma consume_str:
  "consume (str literal) s =
     Some (Inr (if prefix literal s
        then Success None literal (drop (length literal) s)
        else Failure (FailureObject
          (''Literal '' @ [quote] @ literal @ [quote] @ '' not matched: '' @ [quote] @ s @ [quote])
          None)))"
proof (cases "prefix literal s")
  let ?m = "Seq (escapeRegExp literal) (Seq (Group (Star AnyChar)) Eol)"
  let ?x0 = "\<lparr>endIndex = 0, captures = \<lambda>_. None\<rparr>"
  case True
  then have t: "take (length literal) s = literal" and le: "length literal \<le> length s"
    by (auto simp: prefix_def)
  have "rmatch ?m s 1 ?x0 =
      [?x0\<lparr>endIndex := length s, captures := (captures ?x0)(1 \<mapsto> drop (length literal) s)\<rparr>]"
    using t le by (simp add: rmatch_literal_rest rmatch_rest del: rmatch.simps)
  then have "exec (Seq Bol ?m) s = Some [Some s, Some (drop (length literal) s)]"
    by (simp add: exec_Bol substring_def del: rmatch.simps)
  then show ?thesis
    using True by (simp add: str_def Let_def del: rmatch.simps)
next
  let ?m = "Seq (escapeRegExp literal) (Seq (Group (Star AnyChar)) Eol)"
  let ?x0 = "\<lparr>endIndex = 0, captures = \<lambda>_. None\<rparr>"
  case False
  then have "take (length literal) s \<noteq> literal"
    by (metis take_is_prefix)
  then have "rmatch ?m s 1 ?x0 = []"
    by (simp add: rmatch_literal_rest del: rmatch.simps)
  then have "exec (Seq Bol ?m) s = None"
    by (simp add: exec_Bol del: rmatch.simps)
  then show ?thesis
    using False by (simp add: str_def Let_def del: rmatch.simps)
qed

text \<open>A match never moves past the end of the input.\<close>

lemma RepeatMatcher_bound:
  assumes m: "\<And>x y. y \<in> set (m x) \<Longrightarrow> endIndex x \<le> L \<Longrightarrow> endIndex y \<le> L"
  shows "y \<in> set (RepeatMatcher m n x) \<Longrightarrow> endIndex x \<le> L \<Longrightarrow> endIndex y \<le> L"
proof (induction n arbitrary: x)
  case 0
  then show ?case by simp
next
  case (Suc n)
  from Suc.prems(1) consider "y = x"
    | z where "z \<in> set (m x)" "y \<in> set (RepeatMatcher m n z)"
    by auto
  then show ?case
  proof cases
    case 1
    with Suc.prems(2) show ?thesis by simp
  next
    case 2
    from m [OF 2(1) Suc.prems(2)] have "endIndex z \<le> L" .
    from Suc.IH [OF 2(2) this] show ?thesis .
  qed
qed

lemma rmatch_bound:
  "y \<in> set (rmatch r input k x) \<Longrightarrow> endIndex x \<le> length input \<Longrightarrow>
   endIndex y \<le> length input"
proof (induction r arbitrary: k x y)
  case (Star r)
  let ?m = "\<lambda>y. rmatch r input k (y\<lparr>captures := clear k (ngroups r) (captures y)\<rparr>)"
  have "\<And>x y. y \<in> set (?m x) \<Longrightarrow> endIndex x \<le> length input \<Longrightarrow> endIndex y \<le> length input"
    using Star.IH by fastforce
  from RepeatMatcher_bound [of ?m "length input", OF this] Star.prems
  show ?case by simp
next
  case (Seq a b)
  then show ?case by (auto split: if_splits)
next
  case (Alt a b)
  then show ?case by (auto split: if_splits)
next
  case (Group r)
  then show ?case by (auto split: if_splits)
qed (auto split: if_splits)

text \<open>
  What \<^verbatim>\<open>regexp\<close> computes for a pattern without capturing groups: the first way in which
  the pattern matches at index 0 splits the input into content and \<^verbatim>\<open>unconsumed\<close>.
\<close>

lemma consume_regexp_no_groups:
  assumes "ngroups (pattern exp) = 0"
  shows "consume (regexp exp) s =
     Some (Inr (case rmatch (pattern exp) s 2 \<lparr>endIndex = 0, captures = \<lambda>_. None\<rparr> of
        [] \<Rightarrow> Failure (FailureObject
          (''Regexp '' @ [quote] @ toString exp @ [quote] @ '' not matched: ''
             @ [quote] @ s @ [quote]) None)
      | z # _ \<Rightarrow> Success None (take (endIndex z) s) (drop (endIndex z) s)))"
proof -
  let ?x0 = "\<lparr>endIndex = 0, captures = \<lambda>_. None\<rparr>"
  let ?W = "Seq (Group (Star AnyChar)) Eol"
  let ?m = "Seq (Group (pattern exp)) ?W"
  let ?g = "\<lambda>z. z\<lparr>captures := (captures z)(1 \<mapsto> substring s 0 (endIndex z))\<rparr>"
  let ?h = "\<lambda>z. z\<lparr>endIndex := length s, captures := (captures z)(2 \<mapsto> drop (endIndex z) s)\<rparr>"
  let ?zs = "rmatch (pattern exp) s 2 ?x0"
  have k: "1 + ngroups (Group (pattern exp)) = 2"
    using assms by simp
  have g: "rmatch (Group (pattern exp)) s 1 ?x0 = map ?g ?zs"
    by (simp add: numeral_2_eq_2)
  have rest: "rmatch ?W s 2 (?g z) = [?h (?g z)]" if "z \<in> set ?zs" for z
  proof -
    from rmatch_bound [OF that] have "endIndex (?g z) \<le> length s" by simp
    from rmatch_rest [OF this, of 2] show ?thesis by (simp del: rmatch.simps)
  qed
  have "rmatch ?m s 1 ?x0 =
      concat (map (rmatch ?W s (1 + ngroups (Group (pattern exp))))
        (rmatch (Group (pattern exp)) s 1 ?x0))"
    by (rule rmatch.simps(6))
  also have "\<dots> = concat (map (rmatch ?W s 2) (map ?g ?zs))"
    unfolding k g ..
  also have "\<dots> = concat (map (\<lambda>z. [?h (?g z)]) ?zs)"
    using rest by (simp add: comp_def del: rmatch.simps cong: map_cong)
  finally have all: "rmatch ?m s 1 ?x0 = map (\<lambda>z. ?h (?g z)) ?zs"
    by (simp add: comp_def)
  have n: "[Suc 0..<Suc (ngroups ?m)] = [Suc 0, 2]"
    using assms by (simp add: upt_rec)
  show ?thesis
  proof (cases ?zs)
    case Nil
    with all have "exec (Seq Bol ?m) s = None"
      by (simp add: exec_Bol del: rmatch.simps)
    with Nil show ?thesis
      by (simp add: regexp_def Let_def del: rmatch.simps)
  next
    case (Cons z zs')
    with all have "exec (Seq Bol ?m) s =
        Some [Some s, Some (take (endIndex z) s), Some (drop (endIndex z) s)]"
      by (simp add: exec_Bol n substring_def del: rmatch.simps ngroups.simps upt_Suc)
    with Cons show ?thesis
      by (simp add: regexp_def Let_def del: rmatch.simps)
  qed
qed

section \<open>parse\<close>

text \<open>
  C5. \<^verbatim>\<open>parse(input)\<close> calls \<^verbatim>\<open>consume(input)\<close>. A failure is returned as it is. A
  success with nothing left is a \<open>Match\<close> with the same content. A success with a
  non-empty remainder \<open>r\<close> is a failure with the message
  \<^verbatim>\<open>Expect EOF. But '<r>' was found\<close> whose causes are the \<^verbatim>\<open>suppressedFailures\<close> of the
  success.
\<close>

theorem parse_eof_boundary:
  "(consume p s = Some (Inr (Failure f)) \<longrightarrow> parse p s = Some (Inr (NoMatch f))) \<and>
   (consume p s = Some (Inr (Success sf c [])) \<longrightarrow> parse p s = Some (Inr (Match c))) \<and>
   (consume p s = Some (Inr (Success sf c r)) \<and> r \<noteq> [] \<longrightarrow>
      parse p s = Some (Inr (NoMatch (FailureObject
        (''Expect EOF. But '' @ [quote] @ r @ [quote] @ '' was found'') sf))))"
  by (simp add: parse_def)

theorem parse_eof_boundary_witness:
  "parse (str ''ab'') ''ax'' = Some (Inr (NoMatch (FailureObject
      (''Literal '' @ [quote] @ ''ab'' @ [quote] @ '' not matched: '' @ [quote] @ ''ax'' @ [quote])
      None))) \<and>
   parse (str ''ab'') ''ab'' = Some (Inr (Match ''ab'')) \<and>
   parse (choice [str ''x'', str ''ab'']) ''abc'' = Some (Inr (NoMatch (FailureObject
      (''Expect EOF. But '' @ [quote] @ ''c'' @ [quote] @ '' was found'')
      (Some [FailureObject
        (''Literal '' @ [quote] @ ''x'' @ [quote] @ '' not matched: '' @ [quote] @ ''abc'' @ [quote])
        None]))))"
proof -
  have a: "consume (str ''ab'') ''ax'' = Some (Inr (Failure (FailureObject
      (''Literal '' @ [quote] @ ''ab'' @ [quote] @ '' not matched: '' @ [quote] @ ''ax'' @ [quote])
      None)))"
    by code_simp
  have b: "consume (str ''ab'') ''ab'' = Some (Inr (Success None ''ab'' []))"
    by code_simp
  have c: "consume (choice [str ''x'', str ''ab'']) ''abc'' = Some (Inr (Success
      (Some [FailureObject
        (''Literal '' @ [quote] @ ''x'' @ [quote] @ '' not matched: '' @ [quote] @ ''abc'' @ [quote])
        None])
      ''ab'' ''c''))"
    by code_simp
  show ?thesis
    using parse_eof_boundary [of "str ''ab''" "''ax''", THEN conjunct1, rule_format, OF a]
      parse_eof_boundary [of "str ''ab''" "''ab''", THEN conjunct2, THEN conjunct1, rule_format, OF b]
      parse_eof_boundary [of "choice [str ''x'', str ''ab'']" "''abc''",
        THEN conjunct2, THEN conjunct2, rule_format, OF conjI [OF c]]
    by simp
qed

section \<open>validate and not\<close>

text \<open>
  C8. \<^verbatim>\<open>p.validate(f).consume(s)\<close> returns the success of \<open>p\<close> unchanged (the same
  \<^verbatim>\<open>suppressedFailures\<close>, content and \<^verbatim>\<open>unconsumed\<close>) when \<open>f\<close> holds of the content; when
  \<open>f\<close> does not hold it returns a failure with the message \<^verbatim>\<open>Validation Error\<close> and no
  causes; a failure of \<open>p\<close> is passed through unchanged.
\<close>

theorem validate_semantics:
  "(consume p s = Some (Inr (Success sf c u)) \<and> predicate c \<longrightarrow>
      consume (validate p predicate) s = Some (Inr (Success sf c u))) \<and>
   (consume p s = Some (Inr (Success sf c u)) \<and> \<not> predicate c \<longrightarrow>
      consume (validate p predicate) s = Some (Inr (Failure (FailureObject ''Validation Error'' None)))) \<and>
   (consume p s = Some (Inr (Failure f)) \<longrightarrow>
      consume (validate p predicate) s = Some (Inr (Failure f)))"
  by (simp add: validate_def)

theorem validate_semantics_witness:
  "consume (validate (choice [str ''x'', str ''ab'']) (\<lambda>c. length c = 2)) ''abc'' =
     Some (Inr (Success
       (Some [FailureObject
         (''Literal '' @ [quote] @ ''x'' @ [quote] @ '' not matched: '' @ [quote] @ ''abc'' @ [quote])
         None])
       ''ab'' ''c'')) \<and>
   consume (validate (choice [str ''x'', str ''ab'']) (\<lambda>c. length c = 3)) ''abc'' =
     Some (Inr (Failure (FailureObject ''Validation Error'' None))) \<and>
   consume (validate (str ''z'') (\<lambda>c. length c = 3)) ''abc'' =
     Some (Inr (Failure (FailureObject
       (''Literal '' @ [quote] @ ''z'' @ [quote] @ '' not matched: '' @ [quote] @ ''abc'' @ [quote])
       None)))"
proof -
  have c: "consume (choice [str ''x'', str ''ab'']) ''abc'' = Some (Inr (Success
      (Some [FailureObject
        (''Literal '' @ [quote] @ ''x'' @ [quote] @ '' not matched: '' @ [quote] @ ''abc'' @ [quote])
        None])
      ''ab'' ''c''))"
    by code_simp
  have z: "consume (str ''z'') ''abc'' = Some (Inr (Failure (FailureObject
      (''Literal '' @ [quote] @ ''z'' @ [quote] @ '' not matched: '' @ [quote] @ ''abc'' @ [quote])
      None)))"
    by (simp add: consume_str)
  show ?thesis
    using validate_semantics [of "choice [str ''x'', str ''ab'']" "''abc''" _ "''ab''" "''c''" "\<lambda>c. length c = 2",
        THEN conjunct1, rule_format, OF conjI [OF c]]
      validate_semantics [of "choice [str ''x'', str ''ab'']" "''abc''" _ "''ab''" "''c''" "\<lambda>c. length c = 3",
        THEN conjunct2, THEN conjunct1, rule_format, OF conjI [OF c]]
      validate_semantics [of "str ''z''" "''abc''" _ _ _ "\<lambda>c. length c = 3",
        THEN conjunct2, THEN conjunct2, rule_format, OF z]
    by simp
qed

text \<open>
  C7. \<^verbatim>\<open>p.not(q).consume(s)\<close> runs \<open>q\<close> on \<open>s\<close> first. If \<open>q\<close> succeeds, whatever it
  consumed, the result is a failure with the message \<^verbatim>\<open>TODO:\<close> and no causes; if \<open>q\<close>
  fails, the result is that of \<^verbatim>\<open>p.consume(s)\<close>.
\<close>

theorem not_lookahead:
  "(consume q s = Some (Inr (Success sf c u)) \<longrightarrow>
      consume (not_parser p q) s = Some (Inr (Failure (FailureObject ''TODO:'' None)))) \<and>
   (consume q s = Some (Inr (Failure f)) \<longrightarrow> consume (not_parser p q) s = consume p s)"
  by (simp add: not_parser_def)

theorem not_lookahead_witness:
  "consume (not_parser (str ''a'') (str ''a'')) ''abc'' = Some (Inr (Failure (FailureObject ''TODO:'' None))) \<and>
   consume (not_parser (str ''a'') (str ''z'')) ''abc'' = Some (Inr (Success None ''a'' ''bc''))"
proof -
  have a: "consume (str ''a'') ''abc'' = Some (Inr (Success None ''a'' ''bc''))"
    by (simp add: consume_str)
  have z: "consume (str ''z'') ''abc'' = Some (Inr (Failure (FailureObject
      (''Literal '' @ [quote] @ ''z'' @ [quote] @ '' not matched: '' @ [quote] @ ''abc'' @ [quote])
      None)))"
    by (simp add: consume_str)
  show ?thesis
    using not_lookahead [of "str ''a''" "''abc''" None "''a''" "''bc''" "str ''a''", THEN conjunct1, rule_format, OF a]
      not_lookahead [of "str ''z''" "''abc''" _ _ _ "str ''a''", THEN conjunct2, rule_format, OF z]
      a
    by simp
qed

section \<open>sequence\<close>

text \<open>
  The recursion of \<^verbatim>\<open>_matchSeq\<close> from index \<open>num\<close> on, along a run in which parser \<open>j\<close>
  is given the cursor \<open>u j\<close>, returns the content \<open>c j\<close> and leaves \<open>u (Suc j)\<close>.
\<close>

lemma matchSeq_fn_fails:
  "num \<le> k \<Longrightarrow> k < length ps \<Longrightarrow>
   \<forall>j. num \<le> j \<and> j < k \<longrightarrow> (\<exists>sf. consume (ps ! j) (u j) = Some (Inr (Success sf (c j) (u (Suc j))))) \<Longrightarrow>
   consume (ps ! k) (u k) = Some (Inr (Failure f)) \<Longrightarrow>
   matchSeq_fn ps (u num) num prev = Some (Inr (Failure f))"
proof (induction "k - num" arbitrary: num prev)
  case 0
  then have "num = k" by simp
  with "0.prems" show ?case
    by (simp add: matchSeq_fn.simps [of ps "u k" k])
next
  case (Suc d)
  then have lt: "num < k" by simp
  with Suc.prems obtain sf where
    here: "consume (ps ! num) (u num) = Some (Inr (Success sf (c num) (u (Suc num))))"
    by auto
  have "matchSeq_fn ps (u (Suc num)) (Suc num) (prev @ [c num]) = Some (Inr (Failure f))"
    using Suc.hyps(2) Suc.prems lt by (intro Suc.hyps(1)) auto
  with here lt Suc.prems(2) show ?case
    by (simp add: matchSeq_fn.simps [of ps "u num" num])
qed

lemma matchSeq_fn_succeeds:
  "num < length ps \<Longrightarrow>
   \<forall>j. num \<le> j \<and> j < length ps \<longrightarrow>
     (\<exists>sf. consume (ps ! j) (u j) = Some (Inr (Success sf (c j) (u (Suc j))))) \<Longrightarrow>
   matchSeq_fn ps (u num) num prev =
     Some (Inr (Success None (prev @ map c [num..<length ps]) (u (length ps))))"
proof (induction "length ps - num" arbitrary: num prev)
  case 0
  then show ?case by simp
next
  case (Suc d)
  from Suc.prems obtain sf where
    here: "consume (ps ! num) (u num) = Some (Inr (Success sf (c num) (u (Suc num))))"
    by auto
  have up: "[num..<length ps] = num # [Suc num..<length ps]"
    using Suc.prems(1) by (simp add: upt_conv_Cons)
  show ?case
  proof (cases "Suc num < length ps")
    case True
    have "matchSeq_fn ps (u (Suc num)) (Suc num) (prev @ [c num]) =
        Some (Inr (Success None ((prev @ [c num]) @ map c [Suc num..<length ps]) (u (length ps))))"
      using Suc.hyps(2) Suc.prems True by (intro Suc.hyps(1)) auto
    with here True Suc.prems(1) up show ?thesis
      by (simp add: matchSeq_fn.simps [of ps "u num" num])
  next
    case False
    with Suc.prems(1) have "Suc num = length ps" by simp
    with here up show ?thesis
      by (simp add: matchSeq_fn.simps [of ps "u num" num])
  qed
qed

text \<open>
  C4. For parsers \<open>ps\<close> and an input \<open>s\<close>, let the cursor start as \<open>u 0 = s\<close>. If the
  parsers before index \<open>k\<close> succeed in turn, parser \<open>j\<close> on the cursor \<open>u j\<close> with content
  \<open>c j\<close> and remainder \<open>u (Suc j)\<close>, and parser \<open>k\<close> fails on \<open>u k\<close>, then the
  sequence returns that failure as it is; nothing is assumed of the parsers after \<open>k\<close>, so
  they play no part in the result. If every parser of a non-empty list succeeds in turn,
  the sequence returns the contents in order and the last cursor.
\<close>

theorem sequence_semantics:
  "(k < length ps \<and> u 0 = s \<and>
    (\<forall>j<k. \<exists>sf. consume (ps ! j) (u j) = Some (Inr (Success sf (c j) (u (Suc j))))) \<and>
    consume (ps ! k) (u k) = Some (Inr (Failure f)) \<longrightarrow>
      consume (sequence ps) s = Some (Inr (Failure f))) \<and>
   (ps \<noteq> [] \<and> u 0 = s \<and>
    (\<forall>j<length ps. \<exists>sf. consume (ps ! j) (u j) = Some (Inr (Success sf (c j) (u (Suc j))))) \<longrightarrow>
      consume (sequence ps) s =
        Some (Inr (Success None (map c [0..<length ps]) (u (length ps)))))"
proof (intro conjI impI)
  assume "k < length ps \<and> u 0 = s \<and>
    (\<forall>j<k. \<exists>sf. consume (ps ! j) (u j) = Some (Inr (Success sf (c j) (u (Suc j))))) \<and>
    consume (ps ! k) (u k) = Some (Inr (Failure f))"
  then show "consume (sequence ps) s = Some (Inr (Failure f))"
    using matchSeq_fn_fails [of 0 k ps u c f "[]"]
    by (simp add: sequence_def matchSeq_def)
next
  assume "ps \<noteq> [] \<and> u 0 = s \<and>
    (\<forall>j<length ps. \<exists>sf. consume (ps ! j) (u j) = Some (Inr (Success sf (c j) (u (Suc j)))))"
  then show "consume (sequence ps) s =
      Some (Inr (Success None (map c [0..<length ps]) (u (length ps))))"
    using matchSeq_fn_succeeds [of 0 ps u c "[]"]
    by (simp add: sequence_def matchSeq_def)
qed

theorem sequence_semantics_witness:
  "consume (sequence [str ''a'', str ''b'', str ''c'']) ''abd'' =
     Some (Inr (Failure (FailureObject
       (''Literal '' @ [quote] @ ''c'' @ [quote] @ '' not matched: '' @ [quote] @ ''d'' @ [quote])
       None))) \<and>
   consume (sequence [str ''a'', str ''b'']) ''abd'' =
     Some (Inr (Success None [''a'', ''b''] ''d''))"
proof -
  let ?u = "\<lambda>j::nat. drop j ''abd''"
  let ?c = "\<lambda>j::nat. [''abd'' ! j]"
  let ?f = "FailureObject
       (''Literal '' @ [quote] @ ''c'' @ [quote] @ '' not matched: '' @ [quote] @ ''d'' @ [quote])
       None"
  have 1: "consume (sequence [str ''a'', str ''b'', str ''c'']) ''abd'' = Some (Inr (Failure ?f))"
    using sequence_semantics [of 2 "[str ''a'', str ''b'', str ''c'']" ?u "''abd''" ?c ?f,
        THEN conjunct1]
    by (simp add: consume_str less_Suc_eq numeral_2_eq_2)
  have 2: "consume (sequence [str ''a'', str ''b'']) ''abd'' =
      Some (Inr (Success None [''a'', ''b''] ''d''))"
    using sequence_semantics [of _ "[str ''a'', str ''b'']" ?u "''abd''" ?c,
        THEN conjunct2]
    by (simp add: consume_str less_Suc_eq numeral_2_eq_2 upt_rec)
  from 1 2 show ?thesis by simp
qed

text \<open>With every parser returning on every input, a non-empty sequence returns too.\<close>

lemma matchSeq_fn_returns:
  "num < length ps \<Longrightarrow> \<forall>p\<in>set ps. \<forall>t. \<exists>out. consume p t = Some (Inr out) \<Longrightarrow>
   \<exists>out. matchSeq_fn ps cur num prev = Some (Inr out)"
proof (induction ps cur num prev rule: matchSeq_fn.induct)
  case (1 parsers cur num prev)
  from "1.prems" obtain out where out: "consume (parsers ! num) cur = Some (Inr out)"
    by (meson nth_mem)
  show ?case
  proof (cases out)
    case (Failure f)
    with out "1.prems" show ?thesis
      by (simp add: matchSeq_fn.simps [of parsers cur num])
  next
    case (Success sf c u)
    show ?thesis
    proof (cases "num + 1 < length parsers")
      case True
      from "1.prems" have nle: "\<not> length parsers \<le> num" by simp
      from "1.IH" [OF nle out refl Success refl True True "1.prems"(2)]
      obtain r where "matchSeq_fn parsers u (num + 1) (prev @ [c]) = Some (Inr r)"
        by auto
      with out Success True "1.prems" show ?thesis
        by (simp add: matchSeq_fn.simps [of parsers cur num])
    next
      case False
      with out Success "1.prems" show ?thesis
        by (simp add: matchSeq_fn.simps [of parsers cur num])
    qed
  qed
qed

text \<open>
  C10. \<^verbatim>\<open>sequence()\<close> with no parsers: \<^verbatim>\<open>consume\<close> throws a \<open>TypeError\<close> on every
  input, since \<^verbatim>\<open>parsers[0]\<close> is \<^verbatim>\<open>undefined\<close>; no outcome is returned. With a non-empty
  list of parsers that return an outcome on every input, \<^verbatim>\<open>consume\<close> returns an outcome.
\<close>

theorem sequence_empty_throws:
  "consume (sequence []) s = Some (Inl TypeError) \<and>
   (ps \<noteq> [] \<and> (\<forall>p\<in>set ps. \<forall>t. \<exists>out. consume p t = Some (Inr out)) \<longrightarrow>
      (\<exists>out. consume (sequence ps) s = Some (Inr out)))"
  using matchSeq_fn_returns [of 0 ps s "[]"]
  by (simp add: sequence_def matchSeq_def matchSeq_fn.simps [of "[]"])

theorem sequence_empty_throws_witness:
  "consume (sequence ([] :: string Parser list)) ''abc'' = Some (Inl TypeError) \<and>
   (\<exists>out. consume (sequence [str ''a'', str ''b'']) ''abc'' = Some (Inr out))"
  using sequence_empty_throws [of "''abc''" "[str ''a'', str ''b'']"]
  by (simp add: consume_str)

section \<open>choice\<close>

text \<open>
  The recursion of \<^verbatim>\<open>choice\<close> from index \<open>num\<close> on, with the failures \<open>fs\<close> collected
  so far, along a run in which parser \<open>j\<close> fails with \<open>f j\<close> on the input.
\<close>

lemma choice_fn_succeeds:
  "num \<le> k \<Longrightarrow> k < length ps \<Longrightarrow>
   \<forall>j. num \<le> j \<and> j < k \<longrightarrow> consume (ps ! j) s = Some (Inr (Failure (f j))) \<Longrightarrow>
   consume (ps ! k) s = Some (Inr (Success sf c u)) \<Longrightarrow>
   choice_fn ps s num fs =
     Some (Inr (Success
       (if num = k then fs
        else Some ((case fs of None \<Rightarrow> [] | Some ys \<Rightarrow> ys) @
          map (\<lambda>j. FailureObject (message (f j)) (causes (f j))) [num..<k]))
       c u))"
proof (induction "k - num" arbitrary: num fs)
  case 0
  then have "num = k" by simp
  with "0.prems" show ?case
    by (simp add: choice_fn.simps [of ps s k])
next
  case (Suc d)
  then have lt: "num < k" by simp
  with Suc.prems have here: "consume (ps ! num) s = Some (Inr (Failure (f num)))"
    by auto
  let ?g = "\<lambda>j. FailureObject (message (f j)) (causes (f j))"
  let ?fs' = "case fs of Some ys \<Rightarrow> Some (ys @ [?g num]) | None \<Rightarrow> Some [?g num]"
  have up: "[num..<k] = num # [Suc num..<k]"
    using lt by (simp add: upt_conv_Cons)
  have "choice_fn ps s (Suc num) ?fs' =
     Some (Inr (Success
       (if Suc num = k then ?fs'
        else Some ((case ?fs' of None \<Rightarrow> [] | Some ys \<Rightarrow> ys) @ map ?g [Suc num..<k]))
       c u))"
    using Suc.hyps(2) Suc.prems lt by (intro Suc.hyps(1)) auto
  with here lt Suc.prems(2) up show ?case
    by (simp add: choice_fn.simps [of ps s num] split: option.splits)
qed

lemma choice_fn_fails:
  "num \<le> length ps \<Longrightarrow>
   \<forall>j. num \<le> j \<and> j < length ps \<longrightarrow> consume (ps ! j) s = Some (Inr (Failure (f j))) \<Longrightarrow>
   choice_fn ps s num fs =
     Some (Inr (Failure (FailureObject ''No Matches''
       (if num = length ps then fs
        else Some ((case fs of None \<Rightarrow> [] | Some ys \<Rightarrow> ys) @
          map (\<lambda>j. FailureObject (message (f j)) (causes (f j))) [num..<length ps])))))"
proof (induction "length ps - num" arbitrary: num fs)
  case 0
  then have "num = length ps" by simp
  then show ?case
    by (simp add: choice_fn.simps [of ps s "length ps"])
next
  case (Suc d)
  then have lt: "num < length ps" by simp
  with Suc.prems have here: "consume (ps ! num) s = Some (Inr (Failure (f num)))"
    by auto
  let ?g = "\<lambda>j. FailureObject (message (f j)) (causes (f j))"
  let ?fs' = "case fs of Some ys \<Rightarrow> Some (ys @ [?g num]) | None \<Rightarrow> Some [?g num]"
  have up: "[num..<length ps] = num # [Suc num..<length ps]"
    using lt by (simp add: upt_conv_Cons)
  have "choice_fn ps s (Suc num) ?fs' =
     Some (Inr (Failure (FailureObject ''No Matches''
       (if Suc num = length ps then ?fs'
        else Some ((case ?fs' of None \<Rightarrow> [] | Some ys \<Rightarrow> ys) @ map ?g [Suc num..<length ps])))))"
    using Suc.hyps(2) Suc.prems lt by (intro Suc.hyps(1)) auto
  with here lt up show ?case
    by (simp add: choice_fn.simps [of ps s num] split: option.splits)
qed

text \<open>
  C3. Every alternative is tried on the same input \<open>s\<close>. If the alternatives before index
  \<open>k\<close> fail, alternative \<open>j\<close> with \<open>f j\<close>, and alternative \<open>k\<close> succeeds, the result
  has the content and the remainder of that success, and its \<^verbatim>\<open>suppressedFailures\<close> are the
  \<^verbatim>\<open>{message, causes}\<close> of the failures before, in order (the field is absent when \<open>k = 0\<close>:
  there is none). If every alternative of a non-empty list fails, the result is a failure
  with the message \<^verbatim>\<open>No Matches\<close> whose causes are the \<^verbatim>\<open>{message, causes}\<close> of all the
  failures, in order.
\<close>

theorem choice_semantics:
  "(k < length ps \<and>
    (\<forall>j<k. consume (ps ! j) s = Some (Inr (Failure (f j)))) \<and>
    consume (ps ! k) s = Some (Inr (Success sf c u)) \<longrightarrow>
      consume (choice ps) s =
        Some (Inr (Success
          (if k = 0 then None
           else Some (map (\<lambda>j. FailureObject (message (f j)) (causes (f j))) [0..<k]))
          c u))) \<and>
   (ps \<noteq> [] \<and> (\<forall>j<length ps. consume (ps ! j) s = Some (Inr (Failure (f j)))) \<longrightarrow>
      consume (choice ps) s =
        Some (Inr (Failure (FailureObject ''No Matches''
          (Some (map (\<lambda>j. FailureObject (message (f j)) (causes (f j))) [0..<length ps]))))))"
proof (intro conjI impI)
  assume "k < length ps \<and>
    (\<forall>j<k. consume (ps ! j) s = Some (Inr (Failure (f j)))) \<and>
    consume (ps ! k) s = Some (Inr (Success sf c u))"
  then show "consume (choice ps) s =
        Some (Inr (Success
          (if k = 0 then None
           else Some (map (\<lambda>j. FailureObject (message (f j)) (causes (f j))) [0..<k]))
          c u))"
    using choice_fn_succeeds [of 0 k ps s f sf c u None]
    by (auto simp: choice_def)
next
  assume "ps \<noteq> [] \<and> (\<forall>j<length ps. consume (ps ! j) s = Some (Inr (Failure (f j))))"
  then show "consume (choice ps) s =
        Some (Inr (Failure (FailureObject ''No Matches''
          (Some (map (\<lambda>j. FailureObject (message (f j)) (causes (f j))) [0..<length ps])))))"
    using choice_fn_fails [of 0 ps s f None]
    by (auto simp: choice_def)
qed

theorem choice_semantics_witness:
  "consume (choice [str ''a'', str ''b'', str ''c'']) ''cd'' =
     Some (Inr (Success
       (Some
         [FailureObject
            (''Literal '' @ [quote] @ ''a'' @ [quote] @ '' not matched: '' @ [quote] @ ''cd'' @ [quote])
            None,
          FailureObject
            (''Literal '' @ [quote] @ ''b'' @ [quote] @ '' not matched: '' @ [quote] @ ''cd'' @ [quote])
            None])
       ''c'' ''d'')) \<and>
   consume (choice [str ''a'', str ''b'']) ''cd'' =
     Some (Inr (Failure (FailureObject ''No Matches''
       (Some
         [FailureObject
            (''Literal '' @ [quote] @ ''a'' @ [quote] @ '' not matched: '' @ [quote] @ ''cd'' @ [quote])
            None,
          FailureObject
            (''Literal '' @ [quote] @ ''b'' @ [quote] @ '' not matched: '' @ [quote] @ ''cd'' @ [quote])
            None]))))"
proof -
  let ?f = "\<lambda>j::nat. FailureObject
     (''Literal '' @ [quote] @ [''ab'' ! j] @ [quote] @ '' not matched: '' @ [quote] @ ''cd'' @ [quote])
     None"
  have 1: "consume (choice [str ''a'', str ''b'', str ''c'']) ''cd'' =
     Some (Inr (Success (Some [?f 0, ?f 1]) ''c'' ''d''))"
    using choice_semantics [of 2 "[str ''a'', str ''b'', str ''c'']" "''cd''" ?f None "''c''" "''d''",
        THEN conjunct1]
    by (simp add: consume_str less_Suc_eq numeral_2_eq_2 upt_rec)
  have 2: "consume (choice [str ''a'', str ''b'']) ''cd'' =
     Some (Inr (Failure (FailureObject ''No Matches'' (Some [?f 0, ?f 1]))))"
    using choice_semantics [of _ "[str ''a'', str ''b'']" "''cd''" ?f, THEN conjunct2]
    by (simp add: consume_str less_Suc_eq numeral_2_eq_2 upt_rec)
  from 1 2 show ?thesis by simp
qed

section \<open>repeat\<close>

text \<open>Every outcome \<open>repeat_fn\<close> returns is a success reached by a run of \<open>repeat_spec\<close>.\<close>

lemma repeat_fn_sound_step:
  assumes "repeat_fn p cur acc = Some y"
  shows "\<forall>r. y = Inr r \<longrightarrow> (\<exists>cs u. r = Success None cs u \<and> repeat_spec p cur acc u cs)"
    apply (rule repeat_fn.raw_induct [where P = "\<lambda>p cur acc y. \<forall>r. y = Inr r \<longrightarrow>
        (\<exists>cs u. r = Success None cs u \<and> repeat_spec p cur acc u cs)", OF _ assms])
    subgoal premises step for f p cur acc y
    proof (intro allI impI)
      fix out
      assume y: "y = Inr out"
      show "\<exists>cs u. out = Success None cs u \<and> repeat_spec p cur acc u cs"
      proof (cases "consume p cur")
        case None
        with step(2) show ?thesis by simp
      next
        case (Some r)
        show ?thesis
        proof (cases r)
          case (Inl e)
          with Some step(2) y show ?thesis by simp
        next
          case (Inr res)
          show ?thesis
          proof (cases res)
            case (Failure f)
            with Some Inr step(2) y have "out = Success None acc cur" by simp
            moreover have "repeat_spec p cur acc cur acc"
              using Some Inr Failure by (auto intro: stop_on_failure)
            ultimately show ?thesis by blast
          next
            case (Success sf c u)
            show ?thesis
            proof (cases "u = []")
              case True
              with Some Inr Success step(2) y have "out = Success None (acc @ [c]) []"
                by simp
              moreover have "repeat_spec p cur acc [] (acc @ [c])"
                using Some Inr Success True by (auto intro: stop_on_empty)
              ultimately show ?thesis by blast
            next
              case False
              with Some Inr Success step(2) have "f p u (acc @ [c]) = Some y"
                by simp
              from step(1) [OF this] y obtain cs u' where
                "out = Success None cs u'" "repeat_spec p u (acc @ [c]) u' cs"
                by blast
              moreover have "consume p cur = Some (Inr (Success sf c u))"
                using Some Inr Success by simp
              ultimately show ?thesis
                using False by (blast intro: advance)
            qed
          qed
        qed
      qed
    qed
    done

lemma repeat_fn_sound:
  "repeat_fn p cur acc = Some (Inr out) \<Longrightarrow>
   \<exists>cs u. out = Success None cs u \<and> repeat_spec p cur acc u cs"
  using repeat_fn_sound_step [of p cur acc "Inr out"] by simp

lemma repeat_fn_complete:
  "repeat_spec p cur acc u cs \<Longrightarrow> repeat_fn p cur acc = Some (Inr (Success None cs u))"
proof (induction rule: repeat_spec.induct)
  case (stop_on_failure cur f acc)
  then show ?case by (simp add: repeat_fn.simps [of p cur])
next
  case (stop_on_empty cur sf c acc)
  then show ?case by (simp add: repeat_fn.simps [of p cur])
next
  case (advance cur sf c u acc cur' acc')
  then show ?case by (simp add: repeat_fn.simps [of p cur])
qed

text \<open>
  C9. Whenever \<^verbatim>\<open>repeat(p).consume(s)\<close> returns an outcome, it is the success whose content
  is the sequence accumulated by consuming \<open>p\<close> again and again from the cursor \<open>s\<close>
  until \<open>p\<close> fails or the cursor has become empty, and whose \<^verbatim>\<open>unconsumed\<close> is the cursor
  at that point; the failure that stopped the run is not in the result. Conversely every
  such run is returned. The cursor is tested after a success of \<open>p\<close>, so \<open>p\<close> is tried
  once on an input that is empty from the start.
\<close>

theorem repeat_greedy:
  "consume (repeat p) s = Some (Inr out) \<longleftrightarrow>
     (\<exists>cs u. out = Success None cs u \<and> repeat_spec p s [] u cs)"
  using repeat_fn_sound [of p s "[]" out] repeat_fn_complete [of p s "[]"]
  by (auto simp: repeat_def)

theorem repeat_greedy_witness:
  "repeat_spec (str ''a'') ''aab'' [] ''b'' [''a'', ''a''] \<and>
   repeat_spec (str ''a'') ''bbb'' [] ''bbb'' []"
proof -
  have 1: "consume (repeat (str ''a'')) ''aab'' = Some (Inr (Success None [''a'', ''a''] ''b''))"
    by code_simp
  have 2: "consume (repeat (str ''a'')) ''bbb'' = Some (Inr (Success None [] ''bbb''))"
    by code_simp
  from 1 2 show ?thesis
    using repeat_greedy [of "str ''a''" "''aab''" "Success None [''a'', ''a''] ''b''"]
      repeat_greedy [of "str ''a''" "''bbb''" "Success None [] ''bbb''"]
    by simp
qed

text \<open>
  When \<open>p\<close> returns an outcome on every cursor and each success with something left has
  consumed something, the recursion ends: by induction on the length of the cursor.
\<close>

lemma repeat_fn_returns:
  assumes ret: "\<forall>cur. \<exists>out. consume p cur = Some (Inr out)"
    and prog: "\<forall>cur sf c u. consume p cur = Some (Inr (Success sf c u)) \<and> u \<noteq> [] \<longrightarrow>
      length u < length cur"
  shows "\<exists>cs u. repeat_fn p cur acc = Some (Inr (Success None cs u))"
proof (induction cur arbitrary: acc rule: measure_induct_rule [where f = length])
  case (less cur)
  from ret obtain out where out: "consume p cur = Some (Inr out)" by blast
  show ?case
  proof (cases out)
    case (Failure f)
    with out show ?thesis by (simp add: repeat_fn.simps [of p cur])
  next
    case (Success sf c u)
    show ?thesis
    proof (cases "u = []")
      case True
      with out Success show ?thesis by (simp add: repeat_fn.simps [of p cur])
    next
      case False
      with prog out Success have "length u < length cur" by blast
      from less.IH [OF this] obtain cs u' where
        "repeat_fn p u (acc @ [c]) = Some (Inr (Success None cs u'))" by blast
      with out Success False show ?thesis by (simp add: repeat_fn.simps [of p cur])
    qed
  qed
qed

lemma repeat_fn_no_failure: "repeat_fn p cur acc \<noteq> Some (Inr (Failure f))"
  using repeat_fn_sound [of p cur acc "Failure f"] by auto

text \<open>
  C2, as amended. \<^verbatim>\<open>repeat(p).consume(s)\<close> never returns a failure. It returns a success
  whenever \<open>p\<close> returns an outcome on every cursor and every success of \<open>p\<close> that leaves
  a non-empty remainder leaves one strictly shorter than the cursor it was given.
\<close>

theorem repeat_success:
  "consume (repeat p) s \<noteq> Some (Inr (Failure f)) \<and>
   ((\<forall>cur. \<exists>out. consume p cur = Some (Inr out)) \<and>
    (\<forall>cur sf c u. consume p cur = Some (Inr (Success sf c u)) \<and> u \<noteq> [] \<longrightarrow>
       length u < length cur) \<longrightarrow>
    (\<exists>cs u. consume (repeat p) s = Some (Inr (Success None cs u))))"
  using repeat_fn_returns [of p s "[]"] repeat_fn_no_failure [of p s "[]" f]
  by (simp add: repeat_def)

theorem repeat_success_witness:
  "\<exists>cs u. consume (repeat (str ''a'')) ''aab'' = Some (Inr (Success None cs u))"
proof -
  have "\<forall>cur. \<exists>out. consume (str ''a'') cur = Some (Inr out)"
    by (simp add: consume_str)
  moreover have "\<forall>cur sf c u. consume (str ''a'') cur = Some (Inr (Success sf c u)) \<and> u \<noteq> [] \<longrightarrow>
      length u < length cur"
    by (auto simp: consume_str split: if_splits)
  ultimately show ?thesis
    using repeat_success [of "str ''a''" "''aab''"] by blast
qed

text \<open>
  The empty literal matches without consuming, so on the cursor \<^verbatim>\<open>"b"\<close> the recursion of
  \<^verbatim>\<open>repeat(str(""))\<close> calls itself with the same cursor, and no call returns.
\<close>

lemma repeat_fn_stuck:
  assumes "repeat_fn p cur acc = Some y"
  shows "\<not> (p = str [] \<and> cur = ''b'')"
  apply (rule repeat_fn.raw_induct [where P = "\<lambda>p cur acc y. \<not> (p = str [] \<and> cur = ''b'')", OF _ assms])
  subgoal premises step for f p cur acc y
  proof
    assume a: "p = str [] \<and> cur = ''b''"
    then have "consume p cur = Some (Inr (Success None [] ''b''))"
      by (simp add: consume_str)
    with step(2) have "f p ''b'' (acc @ [[]]) = Some y"
      by simp
    from step(1) [OF this] a show False by simp
  qed
  done

text \<open>
  C2, as stated, fails: \<^verbatim>\<open>repeat(str("")).consume("b")\<close> does not return.
\<close>

theorem repeat_never_returns: "consume (repeat (str [])) ''b'' = None"
proof (cases "consume (repeat (str [])) ''b''")
  case None
  then show ?thesis .
next
  case (Some y)
  then have "repeat_fn (str []) ''b'' [] = Some y"
    by (simp add: repeat_def)
  from repeat_fn_stuck [OF this] show ?thesis by simp
qed

section \<open>regexp with a capturing group\<close>

text \<open>
  C6. \<^verbatim>\<open>regexp(expr).consume(s)\<close> should return, on success, the matched prefix as
  content and everything after it as \<^verbatim>\<open>unconsumed\<close>. For a pattern without groups it
  does (\<open>consume_regexp_no_groups\<close>). With a capturing group in \<open>expr\<close> the second
  element of the match array is that group's capture, not the remainder:
  \<^verbatim>\<open>regexp(/(a)b/).consume("abcd")\<close> matches the prefix \<^verbatim>\<open>"ab"\<close>, after which
  \<^verbatim>\<open>"cd"\<close> is left, and returns \<^verbatim>\<open>"a"\<close> as \<^verbatim>\<open>unconsumed\<close>.
\<close>

theorem regexp_group_wrong_remainder:
  "consume (regexp \<lparr>source = ''(a)b'', flags = [],
      pattern = Seq (Group (Chr CHR ''a'')) (Chr CHR ''b'')\<rparr>) ''abcd'' =
     Some (Inr (Success None ''ab'' ''a'')) \<and>
   drop (length ''ab'') ''abcd'' = ''cd''"
proof -
  have "consume (regexp \<lparr>source = ''(a)b'', flags = [],
      pattern = Seq (Group (Chr CHR ''a'')) (Chr CHR ''b'')\<rparr>) ''abcd'' =
     Some (Inr (Success None ''ab'' ''a''))"
    by code_simp
  then show ?thesis by simp
qed

section \<open>The suffix invariant of the parsers\<close>

text \<open>
  Both leaf matchers keep the invariant, \<^verbatim>\<open>regexp\<close> for a pattern without capturing
  groups, and every combinator keeps it when the parsers it is built from do.
\<close>

lemma suffix_invariantD:
  "suffix_invariant p \<Longrightarrow> consume p s = Some (Inr (Success sf c u)) \<Longrightarrow> suffix u s"
  by (auto simp: suffix_invariant_def)

lemma suffix_invariant_str: "suffix_invariant (str literal)"
  by (auto simp: suffix_invariant_def consume_str suffix_drop split: if_splits)

lemma suffix_invariant_regexp:
  "ngroups (pattern exp) = 0 \<Longrightarrow> suffix_invariant (regexp exp)"
  unfolding suffix_invariant_def
  by (auto simp: consume_regexp_no_groups suffix_drop split: list.splits)

lemma suffix_invariant_then:
  "suffix_invariant p \<Longrightarrow> suffix_invariant (then_parser p action)"
  by (auto simp: suffix_invariant_def then_parser_def
      split: option.splits sum.splits ParseResultInner.splits)

lemma suffix_invariant_validate:
  "suffix_invariant p \<Longrightarrow> suffix_invariant (validate p predicate)"
  by (auto simp: suffix_invariant_def validate_def
      split: option.splits sum.splits ParseResultInner.splits if_splits)

lemma case_unit_any: "(case x of () \<Rightarrow> f) = f"
  by (cases x) (simp only: unit.case)

lemma consume_onParsed: "consume (onParsed p cb) s = consume p s"
proof (cases "consume p s")
  case None
  then show ?thesis by (simp add: onParsed_def)
next
  case (Some r)
  show ?thesis
  proof (cases r)
    case (Inl e)
    with Some show ?thesis by (simp add: onParsed_def)
  next
    case (Inr res)
    have "consume (onParsed p cb) s = (case cb s res of () \<Rightarrow> Some (Inr res))"
      using Some Inr by (simp add: onParsed_def)
    also have "\<dots> = Some (Inr res)"
      by (rule case_unit_any)
    finally show ?thesis using Some Inr by simp
  qed
qed

lemma suffix_invariant_onParsed:
  "suffix_invariant p \<Longrightarrow> suffix_invariant (onParsed p cb)"
  by (simp add: suffix_invariant_def consume_onParsed)

lemma suffix_invariant_not:
  "suffix_invariant p \<Longrightarrow> suffix_invariant (not_parser p q)"
  by (auto simp: suffix_invariant_def not_parser_def
      split: option.splits sum.splits ParseResultInner.splits)

lemma suffix_invariant_lazy:
  "suffix_invariant (factory ()) \<Longrightarrow> suffix_invariant (lazy factory)"
  by (simp add: suffix_invariant_def lazy_def)

lemma matchSeq_fn_suffix:
  "matchSeq_fn ps cur num prev = Some (Inr (Success sf c u)) \<Longrightarrow>
   \<forall>p\<in>set ps. suffix_invariant p \<Longrightarrow> suffix u cur"
proof (induction ps cur num prev rule: matchSeq_fn.induct)
  case (1 parsers cur num prev)
  from "1.prems"(1) have lt: "num < length parsers"
    by (simp add: matchSeq_fn.simps [of parsers cur num] split: if_splits)
  with "1.prems"(1) obtain sf' c' u' where
    here: "consume (parsers ! num) cur = Some (Inr (Success sf' c' u'))"
    by (auto simp: matchSeq_fn.simps [of parsers cur num]
        split: option.splits sum.splits ParseResultInner.splits)
  from lt "1.prems"(2) have "suffix_invariant (parsers ! num)" by simp
  from suffix_invariantD [OF this here] have s1: "suffix u' cur" .
  show ?case
  proof (cases "num + 1 < length parsers")
    case True
    with here lt "1.prems"(1)
    have "matchSeq_fn parsers u' (num + 1) (prev @ [c']) = Some (Inr (Success sf c u))"
      by (simp add: matchSeq_fn.simps [of parsers cur num])
    from "1.IH" [OF _ here refl refl refl True this "1.prems"(2)] lt
    have "suffix u u'" by simp
    with s1 show ?thesis by (meson suffix_order.trans)
  next
    case False
    with here lt "1.prems"(1) have "u = u'"
      by (simp add: matchSeq_fn.simps [of parsers cur num])
    with s1 show ?thesis by simp
  qed
qed

lemma suffix_invariant_sequence:
  "\<forall>p\<in>set ps. suffix_invariant p \<Longrightarrow> suffix_invariant (sequence ps)"
  using matchSeq_fn_suffix [of ps _ 0 "[]"]
  by (auto simp: suffix_invariant_def sequence_def matchSeq_def)

lemma choice_fn_suffix:
  "choice_fn ps s num fs = Some (Inr (Success sf c u)) \<Longrightarrow>
   \<forall>p\<in>set ps. suffix_invariant p \<Longrightarrow> suffix u s"
proof (induction ps s num fs rule: choice_fn.induct)
  case (1 parsers str num failures)
  from "1.prems"(1) have lt: "num < length parsers"
    by (simp add: choice_fn.simps [of parsers str num] split: if_splits)
  with "1.prems"(1) obtain res where res: "consume (parsers ! num) str = Some (Inr res)"
    by (auto simp: choice_fn.simps [of parsers str num] split: option.splits sum.splits)
  from lt "1.prems"(2) have inv: "suffix_invariant (parsers ! num)" by simp
  show ?case
  proof (cases res)
    case (Success sf' c' u')
    with res lt "1.prems"(1) have "u = u'"
      by (simp add: choice_fn.simps [of parsers str num])
    with suffix_invariantD [OF inv] res Success show ?thesis by simp
  next
    case (Failure f)
    let ?failure = "FailureObject (message f) (causes f)"
    let ?fs = "case failures of Some fs \<Rightarrow> Some (fs @ [?failure]) | None \<Rightarrow> Some [?failure]"
    have eq: "?failure = f" by simp
    from res Failure lt "1.prems"(1)
    have "choice_fn parsers str (num + 1) ?fs = Some (Inr (Success sf c u))"
      unfolding eq by (simp add: choice_fn.simps [of parsers str num])
    from "1.IH" [OF _ res refl Failure refl this "1.prems"(2)] lt
    show ?thesis by simp
  qed
qed

lemma suffix_invariant_choice:
  "\<forall>p\<in>set ps. suffix_invariant p \<Longrightarrow> suffix_invariant (choice ps)"
  using choice_fn_suffix [of ps _ 0 None]
  by (auto simp: suffix_invariant_def choice_def)

lemma repeat_spec_suffix:
  "repeat_spec p cur acc u cs \<Longrightarrow> suffix_invariant p \<Longrightarrow> suffix u cur"
proof (induction rule: repeat_spec.induct)
  case (advance cur sf c u acc cur' acc')
  from suffix_invariantD [OF advance.prems advance.hyps(1)] have "suffix u cur" .
  with advance.IH [OF advance.prems] show ?case
    by (meson suffix_order.trans)
qed simp_all

lemma suffix_invariant_repeat:
  assumes "suffix_invariant p"
  shows "suffix_invariant (repeat p)"
  unfolding suffix_invariant_def
proof (intro allI impI)
  fix s sf c u
  assume "consume (repeat p) s = Some (Inr (Success sf c u))"
  then have "repeat_fn p s [] = Some (Inr (Success sf c u))"
    by (simp add: repeat_def)
  from repeat_fn_sound [OF this] have "repeat_spec p s [] u c"
    by simp
  from repeat_spec_suffix [OF this assms] show "suffix u s" .
qed

text \<open>
  C1. On success \<^verbatim>\<open>unconsumed\<close> should be a suffix of the input. It is not for
  \<^verbatim>\<open>regexp\<close> with a capturing group: \<^verbatim>\<open>regexp(/(a)b/).consume("abc")\<close> succeeds with
  \<^verbatim>\<open>unconsumed\<close> equal to \<^verbatim>\<open>"a"\<close>, which is no suffix of \<^verbatim>\<open>"abc"\<close>.
\<close>

theorem regexp_group_not_suffix:
  "consume (regexp \<lparr>source = ''(a)b'', flags = [],
      pattern = Seq (Group (Chr CHR ''a'')) (Chr CHR ''b'')\<rparr>) ''abc'' =
     Some (Inr (Success None ''ab'' ''a'')) \<and>
   \<not> suffix ''a'' ''abc''"
proof -
  have "consume (regexp \<lparr>source = ''(a)b'', flags = [],
      pattern = Seq (Group (Chr CHR ''a'')) (Chr CHR ''b'')\<rparr>) ''abc'' =
     Some (Inr (Success None ''ab'' ''a''))"
    by code_simp
  moreover have "\<not> suffix ''a'' ''abc''"
    by (simp add: suffix_def)
  ultimately show ?thesis by simp
qed

end
